theory Spec2Isabelle
  imports Main
begin

section \<open>The wire envelope\<close>

text \<open>
  The struct \<^verbatim>\<open>Message\<close> of websocket.go. The Go zero value of a string field is the
  empty string, and \<^verbatim>\<open>omitempty\<close> leaves such a field out of the JSON object, so a field
  is "not set" exactly when it is \<open>''''\<close>.

  \<^verbatim>\<open>json.Marshal\<close> belongs to the Go standard library, not to this repository: the payload
  that travels through the channels is kept as the \<open>Message\<close> value it was marshalled from.
\<close>

record Message =
  Sender :: string
  Recipient :: string
  Content :: string

text \<open>The two envelopes built in \<^verbatim>\<open>start\<close> (lines 66 and 72).\<close>

definition connected_msg :: Message where
  "connected_msg = \<lparr>Sender = '''', Recipient = '''', Content = ''/A new socket has connected.''\<rparr>"

definition disconnected_msg :: Message where
  "disconnected_msg = \<lparr>Sender = '''', Recipient = '''', Content = ''/A socket has disconnected.''\<rparr>"

section \<open>Clients, channels and the manager\<close>

text \<open>
  A \<^verbatim>\<open>*Client\<close> is a pointer; the manager's map is keyed by it. A pointer is a
  natural number here.

  The channel \<^verbatim>\<open>c.send\<close> is made by \<^verbatim>\<open>make(chan []byte)\<close> in main.go: it has no
  buffer. A send on it goes through only while the receiver (the client's \<^verbatim>\<open>write\<close>
  goroutine) is parked at its receive; the value is handed over and the receiver leaves
  the receive. \<open>accepted\<close> records, in order, every value the channel has taken.
\<close>

type_synonym ptr = nat

record chan =
  closed :: bool
  waiting :: bool
  accepted :: "Message list"

definition make_chan :: chan where
  "make_chan = \<lparr>closed = False, waiting = False, accepted = []\<rparr>"

text \<open>
  The state the control loop works on: \<open>clients\<close> holds the keys of
  \<^verbatim>\<open>manager.clients\<close> (every stored value is \<^verbatim>\<open>true\<close>), in the order in which a
  \<^verbatim>\<open>range\<close> visits them; \<open>chans s c\<close> is the channel \<^verbatim>\<open>c.send\<close> of the client at \<open>c\<close>.
  Go leaves the iteration order of a map open; no theorem below depends on the order of
  the list.
\<close>

record hub =
  clients :: "ptr list"
  chans :: "ptr \<Rightarrow> chan"

text \<open>\<^verbatim>\<open>var manager\<close>: an empty map; every client that will ever be built has a fresh channel.\<close>

definition manager :: hub where
  "manager = \<lparr>clients = [], chans = (\<lambda>_. make_chan)\<rparr>"

text \<open>
  What a step of the control loop can come to: it finishes, it is parked in a send on
  the channel of some client (the state is the one reached so far), or the Go runtime
  panics.
\<close>

datatype panic = SendOnClosed | CloseOfClosed

datatype outcome = Done hub | Blocked hub ptr | Panic panic

text \<open>The hand-over of a value to the parked receiver of \<open>c\<close>.\<close>

definition deliver :: "ptr \<Rightarrow> Message \<Rightarrow> hub \<Rightarrow> hub" where
  "deliver c m s =
     s\<lparr>chans := (chans s)(c := (chans s c)\<lparr>waiting := False,
                                          accepted := accepted (chans s c) @ [m]\<rparr>)\<rparr>"

text \<open>\<^verbatim>\<open>close(conn.send)\<close>: closing a closed channel panics; a parked receiver is woken.\<close>

definition close_chan :: "ptr \<Rightarrow> hub \<Rightarrow> outcome" where
  "close_chan c s =
     (if closed (chans s c) then Panic CloseOfClosed
      else Done (s\<lparr>chans := (chans s)(c := (chans s c)\<lparr>closed := True, waiting := False\<rparr>)\<rparr>))"

text \<open>\<^verbatim>\<open>delete(manager.clients, conn)\<close> and \<^verbatim>\<open>manager.clients[conn] = true\<close>.\<close>

definition delete :: "ptr \<Rightarrow> hub \<Rightarrow> hub" where
  "delete c s = s\<lparr>clients := removeAll c (clients s)\<rparr>"

definition store :: "ptr \<Rightarrow> hub \<Rightarrow> hub" where
  "store c s = s\<lparr>clients := List.insert c (clients s)\<rparr>"

subsection \<open>\<^verbatim>\<open>ClientManager.send\<close> (lines 88 to 94)\<close>

text \<open>
  The loop body is the plain send \<^verbatim>\<open>conn.send <- message\<close>: on a closed channel it
  panics, with the receiver parked it hands the value over, otherwise the goroutine is
  parked in the send.
\<close>

fun send_loop :: "Message \<Rightarrow> ptr \<Rightarrow> ptr list \<Rightarrow> hub \<Rightarrow> outcome" where
  "send_loop m ignore [] s = Done s"
| "send_loop m ignore (conn # rest) s =
     (if conn \<noteq> ignore then
        (if closed (chans s conn) then Panic SendOnClosed
         else if waiting (chans s conn) then send_loop m ignore rest (deliver conn m s)
         else Blocked s conn)
      else send_loop m ignore rest s)"

definition send :: "Message \<Rightarrow> ptr \<Rightarrow> hub \<Rightarrow> outcome" where
  "send m ignore s = send_loop m ignore (clients s) s"

subsection \<open>The three cases of \<^verbatim>\<open>ClientManager.start\<close> (lines 61 to 86)\<close>

text \<open>Lines 64 to 67.\<close>

definition register :: "ptr \<Rightarrow> hub \<Rightarrow> outcome" where
  "register conn s = send connected_msg conn (store conn s)"

text \<open>Lines 68 to 74.\<close>

definition unregister :: "ptr \<Rightarrow> hub \<Rightarrow> outcome" where
  "unregister conn s =
     (if conn \<in> set (clients s) then
        (case close_chan conn s of
           Done s1 \<Rightarrow> send disconnected_msg conn (delete conn s1)
         | other \<Rightarrow> other)
      else Done s)"

text \<open>
  Lines 75 to 83. The inner \<^verbatim>\<open>select\<close> has a \<^verbatim>\<open>default\<close>: when the send cannot go
  through at once, the channel is closed and the key deleted. A send on a closed channel
  panics inside a \<^verbatim>\<open>select\<close> as well. Only the key under the cursor is deleted, so the
  keys still to come are those of the map at the start of the loop.
\<close>

fun broadcast_loop :: "Message \<Rightarrow> ptr list \<Rightarrow> hub \<Rightarrow> outcome" where
  "broadcast_loop m [] s = Done s"
| "broadcast_loop m (conn # rest) s =
     (if closed (chans s conn) then Panic SendOnClosed
      else if waiting (chans s conn) then broadcast_loop m rest (deliver conn m s)
      else (case close_chan conn s of
              Done s1 \<Rightarrow> broadcast_loop m rest (delete conn s1)
            | other \<Rightarrow> other))"

definition broadcast :: "Message \<Rightarrow> hub \<Rightarrow> outcome" where
  "broadcast m s = broadcast_loop m (clients s) s"

text \<open>
  What the control loop sees, one at a time: a value on one of its three channels, or,
  between two of them, the \<^verbatim>\<open>write\<close> goroutine of a client arriving at its receive
  \<^verbatim>\<open><-c.send\<close> (on a closed channel that receive returns at once and the goroutine
  ends, so nothing is parked).
\<close>

datatype event = Register ptr | Unregister ptr | Broadcast Message | WriterRecv ptr

definition writer_recv :: "ptr \<Rightarrow> hub \<Rightarrow> hub" where
  "writer_recv c s =
     (if closed (chans s c) then s
      else s\<lparr>chans := (chans s)(c := (chans s c)\<lparr>waiting := True\<rparr>)\<rparr>)"

fun handle :: "event \<Rightarrow> hub \<Rightarrow> outcome" where
  "handle (Register conn) s = register conn s"
| "handle (Unregister conn) s = unregister conn s"
| "handle (Broadcast m) s = broadcast m s"
| "handle (WriterRecv c) s = Done (writer_recv c s)"

text \<open>
  The \<^verbatim>\<open>for\<close> loop of \<^verbatim>\<open>start\<close> on a finite run of events: a step that is parked or
  panics ends the run, since the loop is the only goroutine that serves the three
  channels.
\<close>

fun start :: "event list \<Rightarrow> hub \<Rightarrow> outcome" where
  "start [] s = Done s"
| "start (e # es) s =
     (case handle e s of
        Done s1 \<Rightarrow> start es s1
      | other \<Rightarrow> other)"

section \<open>The goroutines of a client\<close>

text \<open>
  What a goroutine of a client does to the outside, in order: a value put on one of the
  manager's channels, a \<^verbatim>\<open>WriteMessage\<close> on the socket, a \<^verbatim>\<open>Close\<close> of the socket.
\<close>

datatype frame = TextMessage Message | CloseMessage

datatype action = Submit event | WriteMessage frame | SocketClose

fun submitted :: "action list \<Rightarrow> event list" where
  "submitted [] = []"
| "submitted (Submit e # as) = e # submitted as"
| "submitted (a # as) = submitted as"

text \<open>
  \<^verbatim>\<open>Client.read\<close> (lines 98 to 117), run on the results of its successive
  \<^verbatim>\<open>ReadMessage\<close> calls (\<open>None\<close> is an error). The flag says whether the goroutine has
  returned; with no result left it is still inside \<^verbatim>\<open>ReadMessage\<close>. On an error the
  body unregisters and closes, and the deferred function does both once more.
\<close>

fun read :: "ptr \<Rightarrow> string \<Rightarrow> string option list \<Rightarrow> action list \<times> bool" where
  "read c cid [] = ([], False)"
| "read c cid (None # rs) =
     ([Submit (Unregister c), SocketClose, Submit (Unregister c), SocketClose], True)"
| "read c cid (Some message # rs) =
     (case read c cid rs of
        (as, fin) \<Rightarrow>
          (Submit (Broadcast \<lparr>Sender = cid, Recipient = '''', Content = message\<rparr>) # as, fin))"

text \<open>
  \<^verbatim>\<open>Client.write\<close> (lines 119 to 135), run on what its successive receives from
  \<^verbatim>\<open>c.send\<close> return, each paired with whether the \<^verbatim>\<open>WriteMessage\<close> that follows
  fails. The source drops the error that \<^verbatim>\<open>WriteMessage\<close> returns, so the flag is not
  looked at. (\<open>write\<close> is a command of Isar; the function is called \<open>write_loop\<close>.)
\<close>

datatype recv = Item Message | ChanClosed

fun write_loop :: "(recv \<times> bool) list \<Rightarrow> action list \<times> bool" where
  "write_loop [] = ([], False)"
| "write_loop ((ChanClosed, err) # rs) = ([WriteMessage CloseMessage, SocketClose], True)"
| "write_loop ((Item message, err) # rs) =
     (case write_loop rs of (as, fin) \<Rightarrow> (WriteMessage (TextMessage message) # as, fin))"

section \<open>Notions used in the statements\<close>

text \<open>
  The keys of a Go map are pairwise different, and a client in the map has an open
  channel: both closing paths delete the key in the same step.
\<close>

definition hub_inv :: "hub \<Rightarrow> bool" where
  "hub_inv s \<longleftrightarrow> distinct (clients s) \<and> (\<forall>c \<in> set (clients s). \<not> closed (chans s c))"




text \<open>The clients a run admits, in order.\<close>

fun registered :: "event list \<Rightarrow> ptr list" where
  "registered [] = []"
| "registered (Register c # es) = c # registered es"
| "registered (e # es) = registered es"

text \<open>
  Sample states: a manager whose clients all have their \<^verbatim>\<open>write\<close> goroutine at the
  receive, and one in which client \<open>0\<close> alone is busy (its goroutine is inside
  \<^verbatim>\<open>WriteMessage\<close>, so a send to it cannot go through: its queue is full).
\<close>

definition all_receiving :: "ptr list \<Rightarrow> hub" where
  "all_receiving cs = \<lparr>clients = cs, chans = (\<lambda>_. make_chan\<lparr>waiting := True\<rparr>)\<rparr>"

definition zero_busy :: "ptr list \<Rightarrow> hub" where
  "zero_busy cs =
     \<lparr>clients = cs, chans = (\<lambda>c. if c = 0 then make_chan else make_chan\<lparr>waiting := True\<rparr>)\<rparr>"

text \<open>The map of keys an outcome ends with, when the step has finished.\<close>

fun peers_of :: "outcome \<Rightarrow> ptr list option" where
  "peers_of (Done s) = Some (clients s)"
| "peers_of other = None"

text \<open>What the channel of \<open>c\<close> has taken when the step has finished.\<close>

fun taken_by :: "ptr \<Rightarrow> outcome \<Rightarrow> Message list option" where
  "taken_by c (Done s) = Some (accepted (chans s c))"
| "taken_by c other = None"

text \<open>A message a client has sent: the envelope \<^verbatim>\<open>read\<close> builds for the text "hi" of client "A".\<close>

definition hi_msg :: Message where
  "hi_msg = \<lparr>Sender = ''A'', Recipient = '''', Content = ''hi''\<rparr>"

text \<open>
  The clients a run is going to admit are new ones: \<^verbatim>\<open>wsPage\<close> in main.go builds the
  client and its channel right before it puts the client on \<^verbatim>\<open>manager.register\<close>, and
  nothing else writes to that channel of the manager. So each is admitted once, is not in
  the map yet, and its channel is open.
\<close>

definition fresh_for :: "event list \<Rightarrow> hub \<Rightarrow> bool" where
  "fresh_for es s \<longleftrightarrow>
     distinct (registered es) \<and>
     (\<forall>c \<in> set (registered es). c \<notin> set (clients s) \<and> \<not> closed (chans s c))"

section \<open>The primitive steps\<close>

lemma store_clients: "clients (store c s) = List.insert c (clients s)"
  by (simp add: store_def)

lemma store_chans: "chans (store c s) = chans s"
  by (simp add: store_def)

lemma delete_clients: "clients (delete c s) = removeAll c (clients s)"
  by (simp add: delete_def)

lemma delete_chans: "chans (delete c s) = chans s"
  by (simp add: delete_def)


lemma close_chan_open:
  "\<not> closed (chans s c) \<Longrightarrow>
   close_chan c s = Done (s\<lparr>chans := (chans s)(c := (chans s c)\<lparr>closed := True, waiting := False\<rparr>)\<rparr>)"
  by (simp add: close_chan_def)

section \<open>The loop of \<^verbatim>\<open>send\<close>\<close>

text \<open>
  A pass touches the channel of each key once, and what it does there depends on that
  channel alone. The outcome \<open>Blocked\<close> is the moment at which the loop is parked in a
  send; \<open>send_loop_resume\<close> below says that going on from there, once the awaited
  \<^verbatim>\<open>write\<close> goroutine has arrived, is the pass run with that arrival placed before it.
\<close>

lemma deliver_clients [simp]: "clients (deliver c m s) = clients s"
  by (simp add: deliver_def)

lemma deliver_chans_other: "c' \<noteq> c \<Longrightarrow> chans (deliver c m s) c' = chans s c'"
  by (simp add: deliver_def)

lemma deliver_chans_same:
  "chans (deliver c m s) c = (chans s c)\<lparr>waiting := False, accepted := accepted (chans s c) @ [m]\<rparr>"
  by (simp add: deliver_def)

lemma send_loop_clients:
  "send_loop m ig cs s = Done s' \<or> send_loop m ig cs s = Blocked s' b \<Longrightarrow> clients s' = clients s"
proof (induction cs arbitrary: s)
  case Nil
  then show ?case by auto
next
  case (Cons a cs)
  show ?case
  proof (cases "a \<noteq> ig \<and> waiting (chans s a) \<and> \<not> closed (chans s a)")
    case True
    with Cons.prems have "send_loop m ig cs (deliver a m s) = Done s'
        \<or> send_loop m ig cs (deliver a m s) = Blocked s' b" by simp
    from Cons.IH [OF this] show ?thesis by simp
  next
    case False
    with Cons.prems Cons.IH [of s] show ?thesis
      by (auto split: if_splits)
  qed
qed




lemma deliver_closed: "closed (chans (deliver a m s) c) = closed (chans s c)"
  by (simp add: deliver_def)

lemma send_loop_closed:
  "send_loop m ig cs s = Done s' \<or> send_loop m ig cs s = Blocked s' b \<Longrightarrow>
   closed (chans s' c) = closed (chans s c)"
proof (induction cs arbitrary: s)
  case Nil
  then show ?case by auto
next
  case (Cons a cs)
  show ?case
  proof (cases "a \<noteq> ig \<and> waiting (chans s a) \<and> \<not> closed (chans s a)")
    case True
    with Cons.prems have "send_loop m ig cs (deliver a m s) = Done s'
        \<or> send_loop m ig cs (deliver a m s) = Blocked s' b" by simp
    from Cons.IH [OF this] show ?thesis by (simp add: deliver_closed)
  next
    case False
    with Cons.prems Cons.IH [of s] show ?thesis
      by (auto split: if_splits)
  qed
qed

lemma send_loop_no_panic:
  "\<forall>c \<in> set cs. c \<noteq> ig \<longrightarrow> \<not> closed (chans s c) \<Longrightarrow> send_loop m ig cs s \<noteq> Panic p"
proof (induction cs arbitrary: s)
  case Nil
  show ?case by simp
next
  case (Cons a cs)
  from Cons.prems have rest: "\<forall>c \<in> set cs. c \<noteq> ig \<longrightarrow> \<not> closed (chans s c)" by simp
  then have rest': "\<forall>c \<in> set cs. c \<noteq> ig \<longrightarrow> \<not> closed (chans (deliver a m s) c)"
    by (simp add: deliver_closed)
  from Cons.IH [OF rest] Cons.IH [OF rest'] Cons.prems show ?case by simp
qed

text \<open>
  The loop parked at \<open>b\<close> in state \<open>s1\<close> goes on, when the \<^verbatim>\<open>write\<close> goroutine of \<open>b\<close>
  arrives, with \<open>b\<close> and the keys after it. That is the whole pass with the arrival
  before it.
\<close>

lemma writer_recv_deliver:
  "a \<noteq> b \<Longrightarrow> writer_recv b (deliver a m s) = deliver a m (writer_recv b s)"
  by (auto simp: writer_recv_def deliver_def fun_upd_twist)

lemma writer_recv_chans_other: "c \<noteq> b \<Longrightarrow> chans (writer_recv b s) c = chans s c"
  by (simp add: writer_recv_def)

lemma send_loop_blocked_at:
  "send_loop m ig cs s = Blocked s1 b \<Longrightarrow> b \<in> set cs \<and> b \<noteq> ig"
proof (induction cs arbitrary: s)
  case Nil
  then show ?case by simp
next
  case (Cons a cs)
  show ?case
  proof (cases "a \<noteq> ig \<and> waiting (chans s a) \<and> \<not> closed (chans s a)")
    case True
    with Cons.prems have "send_loop m ig cs (deliver a m s) = Blocked s1 b" by simp
    from Cons.IH [OF this] show ?thesis by simp
  next
    case False
    with Cons.prems Cons.IH [of s] show ?thesis
      by (auto split: if_splits)
  qed
qed

lemma send_loop_resume:
  "distinct cs \<Longrightarrow> send_loop m ig cs s = Blocked s1 b \<Longrightarrow>
   send_loop m ig cs (writer_recv b s)
     = send_loop m ig (dropWhile (\<lambda>c. c \<noteq> b) cs) (writer_recv b s1)"
proof (induction cs arbitrary: s)
  case Nil
  then show ?case by simp
next
  case (Cons a cs)
  from Cons.prems(1) have d: "distinct cs" and a: "a \<notin> set cs" by auto
  show ?case
  proof (cases "a = ig")
    case True
    with Cons.prems(2) have run: "send_loop m ig cs s = Blocked s1 b" by simp
    from send_loop_blocked_at [OF run] True have "b \<noteq> a" by simp
    with Cons.IH [OF d run] True show ?thesis by simp
  next
    case False
    show ?thesis
    proof (cases "waiting (chans s a)")
      case True
      with False Cons.prems(2) have op: "\<not> closed (chans s a)"
        and run: "send_loop m ig cs (deliver a m s) = Blocked s1 b"
        by (auto split: if_splits)
      from send_loop_blocked_at [OF run] a have ne: "a \<noteq> b" by auto
      from Cons.IH [OF d run] ne False True op show ?thesis
        by (simp add: writer_recv_deliver writer_recv_chans_other)
    next
      case nw: False
      with False Cons.prems(2) have "b = a" "s1 = s" by (auto split: if_splits)
      then show ?thesis by simp
    qed
  qed
qed

section \<open>The loop of the broadcast case\<close>

lemma broadcast_loop_effect:
  "distinct cs \<Longrightarrow> \<forall>c \<in> set cs. \<not> closed (chans s c) \<Longrightarrow>
   \<exists>s'. broadcast_loop m cs s = Done s' \<and>
        clients s' = filter (\<lambda>c. c \<notin> set cs \<or> waiting (chans s c)) (clients s) \<and>
        (\<forall>c. chans s' c =
           (if c \<in> set cs then
              (if waiting (chans s c)
               then (chans s c)\<lparr>waiting := False, accepted := accepted (chans s c) @ [m]\<rparr>
               else (chans s c)\<lparr>closed := True, waiting := False\<rparr>)
            else chans s c))"
proof (induction cs arbitrary: s)
  case Nil
  then show ?case by simp
next
  case (Cons a cs)
  from Cons.prems have d: "distinct cs" and a: "a \<notin> set cs" and op: "\<not> closed (chans s a)"
    by auto
  show ?case
  proof (cases "waiting (chans s a)")
    case True
    let ?s1 = "deliver a m s"
    have same: "chans ?s1 c = chans s c" if "c \<in> set cs" for c
      using that a by (intro deliver_chans_other) auto
    with Cons.prems(2) have "\<forall>c \<in> set cs. \<not> closed (chans ?s1 c)" by simp
    from Cons.IH [OF d this] obtain s' where run: "broadcast_loop m cs ?s1 = Done s'"
      and cl: "clients s' = filter (\<lambda>c. c \<notin> set cs \<or> waiting (chans ?s1 c)) (clients ?s1)"
      and ch: "\<forall>c. chans s' c =
           (if c \<in> set cs then
              (if waiting (chans ?s1 c)
               then (chans ?s1 c)\<lparr>waiting := False, accepted := accepted (chans ?s1 c) @ [m]\<rparr>
               else (chans ?s1 c)\<lparr>closed := True, waiting := False\<rparr>)
            else chans ?s1 c)"
      by blast
    have "broadcast_loop m (a # cs) s = Done s'"
      using run op True by simp
    moreover have "clients s' = filter (\<lambda>c. c \<notin> set (a # cs) \<or> waiting (chans s c)) (clients s)"
      unfolding cl using same True by (auto intro!: filter_cong)
    moreover have "chans s' c =
           (if c \<in> set (a # cs) then
              (if waiting (chans s c)
               then (chans s c)\<lparr>waiting := False, accepted := accepted (chans s c) @ [m]\<rparr>
               else (chans s c)\<lparr>closed := True, waiting := False\<rparr>)
            else chans s c)" for c
    proof (cases "c = a")
      case True
      with ch a \<open>waiting (chans s a)\<close> show ?thesis by (simp add: deliver_chans_same)
    next
      case False
      with ch same show ?thesis by (simp add: deliver_chans_other)
    qed
    ultimately show ?thesis by blast
  next
    case False
    let ?s1 = "s\<lparr>chans := (chans s)(a := (chans s a)\<lparr>closed := True, waiting := False\<rparr>)\<rparr>"
    let ?s2 = "delete a ?s1"
    have same: "chans ?s2 c = chans s c" if "c \<noteq> a" for c
      using that by (simp add: delete_chans)
    have "\<not> closed (chans ?s2 c)" if "c \<in> set cs" for c
    proof -
      from that a have "c \<noteq> a" by auto
      with same [of c] Cons.prems(2) that show ?thesis by simp
    qed
    then have "\<forall>c \<in> set cs. \<not> closed (chans ?s2 c)" by blast
    from Cons.IH [OF d this] obtain s' where run: "broadcast_loop m cs ?s2 = Done s'"
      and cl: "clients s' = filter (\<lambda>c. c \<notin> set cs \<or> waiting (chans ?s2 c)) (clients ?s2)"
      and ch: "\<forall>c. chans s' c =
           (if c \<in> set cs then
              (if waiting (chans ?s2 c)
               then (chans ?s2 c)\<lparr>waiting := False, accepted := accepted (chans ?s2 c) @ [m]\<rparr>
               else (chans ?s2 c)\<lparr>closed := True, waiting := False\<rparr>)
            else chans ?s2 c)"
      by blast
    have "broadcast_loop m (a # cs) s = Done s'"
      using run op False by (simp add: close_chan_open)
    moreover have "clients s' = filter (\<lambda>c. c \<notin> set (a # cs) \<or> waiting (chans s c)) (clients s)"
      unfolding cl using False
      by (auto simp: delete_clients delete_chans removeAll_filter_not_eq intro!: filter_cong)
    moreover have "chans s' c =
           (if c \<in> set (a # cs) then
              (if waiting (chans s c)
               then (chans s c)\<lparr>waiting := False, accepted := accepted (chans s c) @ [m]\<rparr>
               else (chans s c)\<lparr>closed := True, waiting := False\<rparr>)
            else chans s c)" for c
    proof (cases "c = a")
      case True
      with ch a \<open>\<not> waiting (chans s a)\<close> show ?thesis by (simp add: delete_chans)
    next
      case False
      with ch show ?thesis by (simp add: delete_chans)
    qed
    ultimately show ?thesis by blast
  qed
qed

lemma broadcast_effect:
  assumes "hub_inv s"
  shows "\<exists>s'. broadcast m s = Done s' \<and>
        clients s' = filter (\<lambda>c. waiting (chans s c)) (clients s) \<and>
        (\<forall>c. chans s' c =
           (if c \<in> set (clients s) then
              (if waiting (chans s c)
               then (chans s c)\<lparr>waiting := False, accepted := accepted (chans s c) @ [m]\<rparr>
               else (chans s c)\<lparr>closed := True, waiting := False\<rparr>)
            else chans s c))"
proof -
  from assms have "distinct (clients s)" "\<forall>c \<in> set (clients s). \<not> closed (chans s c)"
    by (simp_all add: hub_inv_def)
  from broadcast_loop_effect [OF this, of m] obtain s' where
    run: "broadcast_loop m (clients s) s = Done s'"
    and cl: "clients s' = filter (\<lambda>c. c \<notin> set (clients s) \<or> waiting (chans s c)) (clients s)"
    and ch: "\<forall>c. chans s' c =
           (if c \<in> set (clients s) then
              (if waiting (chans s c)
               then (chans s c)\<lparr>waiting := False, accepted := accepted (chans s c) @ [m]\<rparr>
               else (chans s c)\<lparr>closed := True, waiting := False\<rparr>)
            else chans s c)"
    by blast
  have "filter (\<lambda>c. c \<notin> set (clients s) \<or> waiting (chans s c)) (clients s)
        = filter (\<lambda>c. waiting (chans s c)) (clients s)"
    by (auto intro!: filter_cong)
  with run cl ch show ?thesis unfolding broadcast_def by auto
qed

lemma broadcast_never_blocks: "broadcast_loop m cs s \<noteq> Blocked s' b"
proof (induction cs arbitrary: s)
  case Nil
  show ?case by simp
next
  case (Cons a cs)
  show ?case
  proof (cases "closed (chans s a)")
    case True
    then show ?thesis by simp
  next
    case False
    with Cons.IH [of "deliver a m s"]
      Cons.IH [of "delete a (s\<lparr>chans := (chans s)(a := (chans s a)\<lparr>closed := True, waiting := False\<rparr>)\<rparr>)"]
    show ?thesis by (simp add: close_chan_open)
  qed
qed

section \<open>The keys of the map after a step\<close>

lemma register_peers:
  assumes "register c s = Done s'"
  shows "clients s' = List.insert c (clients s)"
proof -
  from assms have "send_loop connected_msg c (clients (store c s)) (store c s) = Done s'"
    by (simp add: register_def send_def)
  then have "clients s' = clients (store c s)"
    using send_loop_clients by blast
  then show ?thesis by (simp add: store_clients)
qed

lemma unregister_peers: "unregister c s = Done s' \<Longrightarrow> clients s' = removeAll c (clients s)"
proof (cases "c \<in> set (clients s)")
  case False
  assume "unregister c s = Done s'"
  with False show ?thesis by (simp add: unregister_def)
next
  case True
  assume run: "unregister c s = Done s'"
  with True obtain s1 where cl: "close_chan c s = Done s1"
    and snd: "send disconnected_msg c (delete c s1) = Done s'"
    by (auto simp: unregister_def split: outcome.splits)
  from cl have "clients s1 = clients s"
    by (auto simp: close_chan_def split: if_splits)
  moreover from snd have "clients s' = clients (delete c s1)"
    unfolding send_def using send_loop_clients by blast
  ultimately show ?thesis by (simp add: delete_clients)
qed





section \<open>The invariant of the control loop\<close>

lemma registered_Cons_subset: "set (registered es) \<subseteq> set (registered (e # es))"
  by (cases e) auto

lemma registered_Cons_distinct: "distinct (registered (e # es)) \<Longrightarrow> distinct (registered es)"
  by (cases e) auto

lemma register_keeps:
  assumes inv: "hub_inv s" and fr: "fresh_for (Register c # es) s"
  shows "register c s \<noteq> Panic p"
    and "register c s = Done s' \<Longrightarrow> hub_inv s' \<and> fresh_for es s'"
proof -
  from fr have new: "c \<notin> set (clients s)" and op: "\<not> closed (chans s c)"
    and d: "distinct (registered es)" and later: "c \<notin> set (registered es)"
    and fut: "\<forall>x \<in> set (registered es). x \<notin> set (clients s) \<and> \<not> closed (chans s x)"
    by (simp_all add: fresh_for_def)
  from inv have "\<forall>x \<in> set (clients (store c s)). x \<noteq> c \<longrightarrow> \<not> closed (chans (store c s) x)"
    by (auto simp: hub_inv_def store_clients store_chans)
  from send_loop_no_panic [OF this] show "register c s \<noteq> Panic p"
    by (simp add: register_def send_def)
  assume run: "register c s = Done s'"
  then have loop: "send_loop connected_msg c (clients (store c s)) (store c s) = Done s'"
    by (simp add: register_def send_def)
  from register_peers [OF run] have cl: "clients s' = List.insert c (clients s)" .
  have cf: "closed (chans s' x) = closed (chans s x)" for x
    using send_loop_closed [of connected_msg c "clients (store c s)" "store c s" s' _ x] loop
    by (simp add: store_chans)
  from inv op cl cf have "hub_inv s'"
    by (auto simp: hub_inv_def)
  moreover from d later fut cl cf have "fresh_for es s'"
    by (auto simp: fresh_for_def)
  ultimately show "hub_inv s' \<and> fresh_for es s'" ..
qed

lemma unregister_keeps:
  assumes inv: "hub_inv s" and fr: "fresh_for (Unregister c # es) s"
  shows "unregister c s \<noteq> Panic p"
    and "unregister c s = Done s' \<Longrightarrow> hub_inv s' \<and> fresh_for es s'"
proof -
  from fr have d: "distinct (registered es)"
    and fut: "\<forall>x \<in> set (registered es). x \<notin> set (clients s) \<and> \<not> closed (chans s x)"
    by (simp_all add: fresh_for_def)
  show "unregister c s \<noteq> Panic p" "unregister c s = Done s' \<Longrightarrow> hub_inv s' \<and> fresh_for es s'"
  proof -
    show "unregister c s \<noteq> Panic p"
    proof (cases "c \<in> set (clients s)")
      case False
      then show ?thesis by (simp add: unregister_def)
    next
      case True
      with inv have op: "\<not> closed (chans s c)" by (simp add: hub_inv_def)
      let ?s1 = "s\<lparr>chans := (chans s)(c := (chans s c)\<lparr>closed := True, waiting := False\<rparr>)\<rparr>"
      from inv have "\<forall>x \<in> set (clients (delete c ?s1)). x \<noteq> c \<longrightarrow> \<not> closed (chans (delete c ?s1) x)"
        by (auto simp: hub_inv_def delete_clients delete_chans)
      from send_loop_no_panic [OF this] True op show ?thesis
        by (simp add: unregister_def close_chan_open send_def)
    qed
    assume run: "unregister c s = Done s'"
    show "hub_inv s' \<and> fresh_for es s'"
    proof (cases "c \<in> set (clients s)")
      case False
      with run have "s' = s" by (simp add: unregister_def)
      with inv d fut show ?thesis by (simp add: fresh_for_def)
    next
      case True
      with inv have op: "\<not> closed (chans s c)" by (simp add: hub_inv_def)
      let ?s1 = "s\<lparr>chans := (chans s)(c := (chans s c)\<lparr>closed := True, waiting := False\<rparr>)\<rparr>"
      from run True op have loop:
        "send_loop disconnected_msg c (clients (delete c ?s1)) (delete c ?s1) = Done s'"
        by (simp add: unregister_def close_chan_open send_def)
      from unregister_peers [OF run] have cl: "clients s' = removeAll c (clients s)" .
      have cf: "closed (chans s' x) = closed (chans s x)" if "x \<noteq> c" for x
        using send_loop_closed [of disconnected_msg c "clients (delete c ?s1)" "delete c ?s1" s' _ x]
          loop that
        by (simp add: delete_chans)
      from inv cl cf have "hub_inv s'"
        by (auto simp: hub_inv_def distinct_removeAll)
      moreover have "fresh_for es s'"
        unfolding fresh_for_def
      proof (intro conjI ballI)
        show "distinct (registered es)" by (rule d)
      next
        fix x assume x: "x \<in> set (registered es)"
        with fut have "x \<notin> set (clients s)" "\<not> closed (chans s x)" by auto
        with True have "x \<noteq> c" by auto
        with cf [of x] \<open>\<not> closed (chans s x)\<close> show "\<not> closed (chans s' x)" by simp
        from \<open>x \<notin> set (clients s)\<close> cl show "x \<notin> set (clients s')" by simp
      qed
      ultimately show ?thesis ..
    qed
  qed
qed

lemma broadcast_keeps:
  assumes inv: "hub_inv s" and fr: "fresh_for (Broadcast m # es) s"
  shows "broadcast m s \<noteq> Panic p"
    and "broadcast m s = Done s' \<Longrightarrow> hub_inv s' \<and> fresh_for es s'"
proof -
  from fr have d: "distinct (registered es)"
    and fut: "\<forall>x \<in> set (registered es). x \<notin> set (clients s) \<and> \<not> closed (chans s x)"
    by (simp_all add: fresh_for_def)
  from broadcast_effect [OF inv, of m] obtain t where
    run: "broadcast m s = Done t"
    and cl: "clients t = filter (\<lambda>c. waiting (chans s c)) (clients s)"
    and ch: "\<forall>c. chans t c =
           (if c \<in> set (clients s) then
              (if waiting (chans s c)
               then (chans s c)\<lparr>waiting := False, accepted := accepted (chans s c) @ [m]\<rparr>
               else (chans s c)\<lparr>closed := True, waiting := False\<rparr>)
            else chans s c)"
    by blast
  from run show "broadcast m s \<noteq> Panic p" by simp
  assume "broadcast m s = Done s'"
  with run have "s' = t" by simp
  from inv cl ch have "hub_inv t"
    by (auto simp: hub_inv_def)
  moreover from d fut cl ch have "fresh_for es t"
    by (auto simp: fresh_for_def)
  ultimately show "hub_inv s' \<and> fresh_for es s'" using \<open>s' = t\<close> by simp
qed

lemma writer_recv_keeps:
  assumes inv: "hub_inv s" and fr: "fresh_for (WriterRecv c # es) s"
  shows "hub_inv (writer_recv c s) \<and> fresh_for es (writer_recv c s)"
  using assms by (auto simp: hub_inv_def fresh_for_def writer_recv_def)

lemma handle_keeps:
  assumes inv: "hub_inv s" and fr: "fresh_for (e # es) s"
  shows "handle e s \<noteq> Panic p"
    and "handle e s = Done s' \<Longrightarrow> hub_inv s' \<and> fresh_for es s'"
proof -
  show "handle e s \<noteq> Panic p"
  proof (cases e)
    case (Register c)
    with register_keeps(1) [OF inv, of c es] fr show ?thesis by simp
  next
    case (Unregister c)
    with unregister_keeps(1) [OF inv, of c es] fr show ?thesis by simp
  next
    case (Broadcast m)
    with broadcast_keeps(1) [OF inv, of m es] fr show ?thesis by simp
  next
    case (WriterRecv c)
    then show ?thesis by simp
  qed
  assume run: "handle e s = Done s'"
  show "hub_inv s' \<and> fresh_for es s'"
  proof (cases e)
    case (Register c)
    with register_keeps(2) [OF inv, of c es s'] fr run show ?thesis by simp
  next
    case (Unregister c)
    with unregister_keeps(2) [OF inv, of c es s'] fr run show ?thesis by simp
  next
    case (Broadcast m)
    with broadcast_keeps(2) [OF inv, of m es s'] fr run show ?thesis by simp
  next
    case (WriterRecv c)
    with writer_recv_keeps [OF inv, of c es] fr run show ?thesis by auto
  qed
qed

lemma start_keeps:
  "hub_inv s \<Longrightarrow> fresh_for es s \<Longrightarrow>
   start es s \<noteq> Panic p \<and> (\<forall>s'. start es s = Done s' \<longrightarrow> hub_inv s')"
proof (induction es arbitrary: s)
  case Nil
  then show ?case by simp
next
  case (Cons e es)
  note keeps = handle_keeps [OF Cons.prems]
  show ?case
  proof (cases "handle e s")
    case (Done s1)
    from keeps(2) [OF Done] have "hub_inv s1" "fresh_for es s1" by simp_all
    from Cons.IH [OF this] Done show ?thesis by simp
  next
    case (Blocked s1 b)
    then show ?thesis by simp
  next
    case (Panic q)
    with keeps(1) [of q] show ?thesis by simp
  qed
qed

section \<open>Deliveries that wait\<close>

text \<open>
  C1. The claim: every delivery of the manager, in the broadcast case and in the fan-out
  of the two announcements alike, is an attempt that does not wait for the client.
  The code at this input: client \<open>0\<close> is in the map and its \<^verbatim>\<open>write\<close> goroutine is not
  at the receive. Admitting client \<open>1\<close> parks the control loop in the send to \<open>0\<close>, with
  \<open>1\<close> already stored; so does unregistering client \<open>1\<close>, after its channel is closed
  and its key deleted.
\<close>

theorem announcement_send_waits:
  "register 1 (zero_busy [0]) = Blocked (store 1 (zero_busy [0])) 0 \<and>
   unregister 1 (zero_busy [0, 1]) =
     Blocked (delete 1 ((zero_busy [0, 1])\<lparr>chans := (chans (zero_busy [0, 1]))
                (1 := \<lparr>closed = True, waiting = False, accepted = []\<rparr>)\<rparr>)) 0"
  by (simp add: register_def unregister_def send_def store_def delete_def close_chan_def
      zero_busy_def make_chan_def)

section \<open>The fan-out of \<^verbatim>\<open>send\<close>\<close>




section \<open>Admission\<close>



section \<open>A full queue at a broadcast\<close>

text \<open>
  C3. A client of the map whose channel cannot take a value when a broadcast runs (its
  receiver is not there) is dropped by that broadcast: the broadcast finishes without a
  panic and without being parked, the client's channel is closed and the client is not in
  the map afterwards.
\<close>

theorem broadcast_drops_full_peer:
  assumes "hub_inv s" and "c \<in> set (clients s)" and "\<not> waiting (chans s c)"
  shows "\<exists>s'. broadcast m s = Done s' \<and> c \<notin> set (clients s') \<and> closed (chans s' c)"
proof -
  from broadcast_effect [OF assms(1), of m] obtain s' where
    "broadcast m s = Done s'"
    "clients s' = filter (\<lambda>c. waiting (chans s c)) (clients s)"
    "\<forall>c. chans s' c =
           (if c \<in> set (clients s) then
              (if waiting (chans s c)
               then (chans s c)\<lparr>waiting := False, accepted := accepted (chans s c) @ [m]\<rparr>
               else (chans s c)\<lparr>closed := True, waiting := False\<rparr>)
            else chans s c)"
    by blast
  with assms(2,3) show ?thesis by auto
qed

theorem broadcast_drops_full_peer_witness:
  "hub_inv (zero_busy [0, 1, 2]) \<and> 0 \<in> set (clients (zero_busy [0, 1, 2])) \<and>
   \<not> waiting (chans (zero_busy [0, 1, 2]) 0) \<and>
   (\<exists>s'. broadcast connected_msg (zero_busy [0, 1, 2]) = Done s' \<and>
         0 \<notin> set (clients s') \<and> closed (chans s' 0))"
proof -
  have inv: "hub_inv (zero_busy [0, 1, 2])"
    by (simp add: hub_inv_def zero_busy_def make_chan_def)
  have mem: "0 \<in> set (clients (zero_busy [0, 1, 2]))"
    by (simp add: zero_busy_def)
  have full: "\<not> waiting (chans (zero_busy [0, 1, 2]) 0)"
    by (simp add: zero_busy_def make_chan_def)
  from broadcast_drops_full_peer [OF inv mem full] inv mem full show ?thesis by blast
qed

text \<open>
  C5. The claim: with one of \<open>N\<close> clients saturated, a broadcast removes that client,
  the other \<open>N - 1\<close> take the message, and they are sent a disconnect announcement for the
  removed client. The code at this input: clients \<open>0\<close>, \<open>1\<close> and \<open>2\<close>, of which \<open>0\<close> is
  saturated; the broadcast of \<open>hi_msg\<close>; the two other \<^verbatim>\<open>write\<close> goroutines back at
  their receives; and the two unregister requests that the \<^verbatim>\<open>read\<close> goroutine of \<open>0\<close>
  submits once its socket is closed. The map ends as \<open>1\<close> and \<open>2\<close>, and the channels of
  \<open>1\<close> and \<open>2\<close> have taken the message and nothing else: no disconnect announcement.
\<close>

theorem dropped_peer_is_not_announced:
  "peers_of (start [Broadcast hi_msg, WriterRecv 1, WriterRecv 2, Unregister 0, Unregister 0]
               (zero_busy [0, 1, 2])) = Some [1, 2] \<and>
   taken_by 1 (start [Broadcast hi_msg, WriterRecv 1, WriterRecv 2, Unregister 0, Unregister 0]
               (zero_busy [0, 1, 2])) = Some [hi_msg] \<and>
   taken_by 2 (start [Broadcast hi_msg, WriterRecv 1, WriterRecv 2, Unregister 0, Unregister 0]
               (zero_busy [0, 1, 2])) = Some [hi_msg]"
  by (simp add: zero_busy_def hi_msg_def broadcast_def unregister_def send_def delete_def
      close_chan_def deliver_def writer_recv_def make_chan_def)

section \<open>Removal\<close>

lemma read_error_submits:
  "submitted (fst (read c cid (map Some ms @ [None]))) =
     map (\<lambda>m. Broadcast \<lparr>Sender = cid, Recipient = '''', Content = m\<rparr>) ms
       @ [Unregister c, Unregister c]"
  by (induction ms) (auto split: prod.splits)

text \<open>
  C4. When an unregister request has been served, serving the same request again changes
  nothing: the state, with every channel's closed flag and everything each channel has
  taken, is the one after the first. Two requests in a row end where one ends, and these
  are the two requests the \<^verbatim>\<open>read\<close> goroutine submits on a read error, one from the
  loop body and one from the deferred function.
\<close>

theorem unregister_twice_is_once:
  assumes "unregister c s = Done s'"
  shows "unregister c s' = Done s' \<and>
         start [Unregister c, Unregister c] s = Done s' \<and>
         start (submitted (fst (read c cid [None]))) s = Done s'"
proof -
  from unregister_peers [OF assms] have "c \<notin> set (clients s')" by simp
  then have again: "unregister c s' = Done s'" by (simp add: unregister_def)
  with assms have "start [Unregister c, Unregister c] s = Done s'" by simp
  with again show ?thesis by simp
qed

theorem unregister_twice_is_once_witness:
  "(\<exists>s'. unregister 0 (all_receiving [0, 1]) = Done s' \<and> unregister 0 s' = Done s' \<and>
         start [Unregister 0, Unregister 0] (all_receiving [0, 1]) = Done s' \<and>
         peers_of (Done s') = Some [1] \<and> accepted (chans s' 1) = [disconnected_msg])"
proof -
  have "\<exists>s'. unregister 0 (all_receiving [0, 1]) = Done s' \<and>
      clients s' = [1] \<and> accepted (chans s' 1) = [disconnected_msg]"
    by (simp add: all_receiving_def unregister_def send_def delete_def close_chan_def
        deliver_def make_chan_def)
  then obtain s' where run: "unregister 0 (all_receiving [0, 1]) = Done s'"
    and "clients s' = [1]" "accepted (chans s' 1) = [disconnected_msg]" by blast
  with unregister_twice_is_once [OF run] show ?thesis by simp
qed

section \<open>The peer set after a run\<close>




section \<open>The write goroutine\<close>

lemma write_loop_submits_nothing: "submitted (fst (write_loop rs)) = []"
  by (induction rs rule: write_loop.induct) (auto split: prod.splits)

lemma write_loop_returns: "snd (write_loop rs) \<longleftrightarrow> ChanClosed \<in> fst ` set rs"
  by (induction rs rule: write_loop.induct) (auto split: prod.splits)

lemma write_loop_ignores_errors: "write_loop (map (\<lambda>r. (fst r, False)) rs) = write_loop rs"
  by (induction rs rule: write_loop.induct) (auto split: prod.splits)

text \<open>
  C8. Whatever its receives return and whichever of its socket writes fail, the
  \<^verbatim>\<open>write\<close> goroutine puts nothing on a channel of the manager, so serving what it
  submits leaves the manager's state as it is; a failing write changes nothing of what
  the goroutine does; and the goroutine returns exactly when a receive finds the channel
  closed.
\<close>

theorem write_loop_never_unregisters:
  "submitted (fst (write_loop rs)) = [] \<and>
   start (submitted (fst (write_loop rs))) s = Done s \<and>
   write_loop (map (\<lambda>r. (fst r, False)) rs) = write_loop rs \<and>
   (snd (write_loop rs) \<longleftrightarrow> ChanClosed \<in> fst ` set rs)"
  using write_loop_returns [of rs]
  by (simp add: write_loop_submits_nothing write_loop_ignores_errors)

section \<open>The announcement strings\<close>



section \<open>Closing a queue\<close>

text \<open>
  C10. In a run from the initial manager in which every client is admitted at most once,
  no channel is closed a second time: the control loop never comes to the panic that
  closing a closed channel raises.
\<close>

theorem queue_closed_at_most_once:
  assumes "distinct (registered es)"
  shows "start es manager \<noteq> Panic CloseOfClosed"
proof -
  have "hub_inv manager" by (simp add: hub_inv_def manager_def)
  moreover from assms have "fresh_for es manager"
    by (simp add: fresh_for_def manager_def make_chan_def)
  ultimately show ?thesis using start_keeps by blast
qed

theorem queue_closed_at_most_once_witness:
  "distinct (registered [Register 0, WriterRecv 0, Register 1, Broadcast hi_msg,
                         Unregister 1, Unregister 0, Unregister 0]) \<and>
   start [Register 0, WriterRecv 0, Register 1, Broadcast hi_msg,
          Unregister 1, Unregister 0, Unregister 0] manager \<noteq> Panic CloseOfClosed"
proof -
  have d: "distinct (registered [Register 0, WriterRecv 0, Register 1, Broadcast hi_msg,
                         Unregister 1, Unregister 0, Unregister 0])" by simp
  from queue_closed_at_most_once [OF d] d show ?thesis by blast
qed

end
